theory Spec2Isabelle
  imports Complex_Main "HOL-Library.Log_Nat"
begin

section \<open>SoundForge: the genome decoder and the generation loop\<close>

text \<open>
  A shallow embedding of \<^verbatim>\<open>SoundForge.py\<close>. Python's unbounded integers are \<open>int\<close>,
  a raised exception is the \<open>Inl\<close> of a sum type, the melody dictionary is a record.
  A Python float is an IEEE double: a finite one is its exact rational value, and every
  float operation of the source rounds its exact result to the nearest double.
  \<^verbatim>\<open>from pyo import *\<close> replaces the builtin \<^verbatim>\<open>pow\<close> by \<^verbatim>\<open>math.pow\<close>, which
  returns a float, so int_from_bits and the beat lengths compute in floats.
\<close>

subsection \<open>Data\<close>

type_synonym Genome = "int list"

datatype error =
    ZeroDivisionError
  | OverflowError
  | IndexError
  | ValueError
  | EmptyPopulation
  | CrossoverLengthMismatch

text \<open>The melody dictionary with its keys "notes" (here \<open>notes_m\<close>), "velocity" and
  "beat". The loop stores pitch indices under "notes" (\<open>'n = int\<close>); the last
  statement of the decoder replaces them by the layers (\<open>'n = 'p list\<close>).\<close>

record 'n melody =
  notes_m :: "'n list"
  velocity :: "int list"
  beat :: "rat list"

definition BITS_PER_NOTE :: nat where
  "BITS_PER_NOTE = 4"

subsection \<open>Python floats\<close>

text \<open>The exponent of a rational other than 0: the e with 2^e \<le> |x| < 2^(e+1).\<close>

definition ilog2 :: "rat \<Rightarrow> int" where
  "ilog2 x = (let (p, q) = quotient_of x; e0 = bitlen \<bar>p\<bar> - bitlen q
              in if 2 powi e0 \<le> \<bar>x\<bar> then e0 else e0 - 1)"

definition round_half_even :: "rat \<Rightarrow> int" where
  "round_half_even q =
     (let f = \<lfloor>q\<rfloor>; d = q - of_int f
      in if d < 1 / 2 then f else if 1 / 2 < d then f + 1 else if even f then f else f + 1)"

text \<open>Rounding to the nearest number with a significand of 53 bits, ties to even, with no
  bound on the exponent. The bounds of the double format are checked by the operations
  below where a result can reach them.\<close>

definition fl :: "rat \<Rightarrow> rat" where
  "fl x = (if x = 0 then 0
           else let u = 2 powi (ilog2 x - 52)
                in of_int (round_half_even (x / u)) * u)"

text \<open>\<^verbatim>\<open>float(n)\<close> of an int, also the conversion of the int operand of \<^verbatim>\<open>int * float\<close>
  and \<^verbatim>\<open>int / float\<close>: OverflowError when the rounded value is no finite double.\<close>

definition py_float :: "int \<Rightarrow> error + rat" where
  "py_float n = (let x = fl (of_int n) in if 2 ^ 1024 \<le> \<bar>x\<bar> then Inl OverflowError else Inr x)"

text \<open>The floats of the sum in int_from_bits, which a product or a sum of huge genome
  entries can take to an infinity or to a NaN.\<close>

datatype pyfloat = Finite rat | PosInf | NegInf | NaN

definition to_double :: "rat \<Rightarrow> pyfloat" where
  "to_double x =
     (let y = fl x
      in if 2 ^ 1024 \<le> y then PosInf else if y \<le> - (2 ^ 1024) then NegInf else Finite y)"

text \<open>Float addition; a finite double plus zero is that double.\<close>

fun float_add :: "pyfloat \<Rightarrow> pyfloat \<Rightarrow> pyfloat" where
  "float_add (Finite a) (Finite b) =
     (if a = 0 then Finite b else if b = 0 then Finite a else to_double (a + b))"
| "float_add NaN y = NaN"
| "float_add x NaN = NaN"
| "float_add PosInf NegInf = NaN"
| "float_add NegInf PosInf = NaN"
| "float_add PosInf y = PosInf"
| "float_add x PosInf = PosInf"
| "float_add NegInf y = NegInf"
| "float_add x NegInf = NegInf"

text \<open>\<^verbatim>\<open>math.pow(2, index)\<close>: the exact power, or OverflowError from 2^1024 on.\<close>

definition math_pow2 :: "nat \<Rightarrow> error + rat" where
  "math_pow2 index = (if index < 1024 then Inr (2 ^ index) else Inl OverflowError)"

text \<open>\<^verbatim>\<open>int(x)\<close> of a float: truncation, OverflowError on an infinity, ValueError on
  a NaN.\<close>

fun py_int :: "pyfloat \<Rightarrow> error + int" where
  "py_int (Finite x) = Inr (if 0 \<le> x then \<lfloor>x\<rfloor> else \<lceil>x\<rceil>)"
| "py_int PosInf = Inl OverflowError"
| "py_int NegInf = Inl OverflowError"
| "py_int NaN = Inl ValueError"

subsection \<open>int_from_bits\<close>

text \<open>\<^verbatim>\<open>bit * pow(2, index)\<close>: the int bit is converted to a float and multiplied by the
  power of two, which is exact unless it overflows to an infinity.\<close>

definition bit_term :: "nat \<Rightarrow> int \<Rightarrow> error + pyfloat" where
  "bit_term index bit' =
     (case math_pow2 index of
        Inl e \<Rightarrow> Inl e
      | Inr p \<Rightarrow> (case py_float bit' of Inl e \<Rightarrow> Inl e | Inr b \<Rightarrow> Inr (to_double (b * p))))"

text \<open>The list comprehension over \<^verbatim>\<open>enumerate(bits)\<close>.\<close>

fun bit_terms :: "(nat \<times> int) list \<Rightarrow> error + pyfloat list" where
  "bit_terms [] = Inr []"
| "bit_terms ((index, bit') # rest) =
     (case bit_term index bit' of
        Inl e \<Rightarrow> Inl e
      | Inr t \<Rightarrow> (case bit_terms rest of Inl e \<Rightarrow> Inl e | Inr ts \<Rightarrow> Inr (t # ts)))"

text \<open>\<^verbatim>\<open>int(sum([...]))\<close>: sum adds the floats from left to right, starting from 0.
  (From Python 3.12 on sum compensates the rounding errors of floats; that changes no
  result in which every partial sum is exact.)\<close>

definition int_from_bits :: "int list \<Rightarrow> error + int" where
  "int_from_bits bits =
     (case bit_terms (enumerate 0 bits) of
        Inl e \<Rightarrow> Inl e
      | Inr ts \<Rightarrow> py_int (foldl float_add (Finite 0) ts))"

text \<open>The sum of bit i times 2 to the i, in exact integers (the spec's words).\<close>

definition bits_value :: "int list \<Rightarrow> int" where
  "bits_value bits = (\<Sum>i<length bits. bits ! i * 2 ^ i)"

text \<open>The k-bit binary expansion of n, least-significant bit first (the spec's words).\<close>

definition binary_expansion :: "nat \<Rightarrow> int \<Rightarrow> int list" where
  "binary_expansion k n = map (\<lambda>i. (n div 2 ^ i) mod 2) [0..<k]"

subsection \<open>genome_to_melody\<close>

text \<open>The decoded integer of one note: lines 56 to 59. The integer comes from a float, so
  \<^verbatim>\<open>integer % pow(2, 3)\<close>, a float remainder by 8.0, is exact, and int() of it is the
  integer modulo 8.\<close>

definition note_integer :: "bool \<Rightarrow> int list \<Rightarrow> error + int" where
  "note_integer pauses note_bits =
     (case int_from_bits note_bits of
        Inl e \<Rightarrow> Inl e
      | Inr integer \<Rightarrow>
          Inr (if \<not> pauses then integer mod 2 ^ (BITS_PER_NOTE - 1) else integer))"

text \<open>One pass of the loop body, lines 56 to 71. \<^verbatim>\<open>melody["beat"][-1] += note_length\<close>
  is a float addition, and raises IndexError on an empty beat list.\<close>

definition note_step :: "bool \<Rightarrow> rat \<Rightarrow> int melody \<Rightarrow> int list \<Rightarrow> error + int melody" where
  "note_step pauses note_length melody note_bits =
     (case note_integer pauses note_bits of
        Inl e \<Rightarrow> Inl e
      | Inr integer \<Rightarrow>
          if integer \<ge> 2 ^ (BITS_PER_NOTE - 1) then
            Inr (melody\<lparr>notes_m := notes_m melody @ [0],
                        velocity := velocity melody @ [0],
                        beat := beat melody @ [note_length]\<rparr>)
          else if length (notes_m melody) > 0 \<and> last (notes_m melody) = integer then
            (if beat melody = [] then Inl IndexError
             else Inr (melody\<lparr>beat :=
                         butlast (beat melody) @ [fl (last (beat melody) + note_length)]\<rparr>))
          else
            Inr (melody\<lparr>notes_m := notes_m melody @ [integer],
                        velocity := velocity melody @ [127],
                        beat := beat melody @ [note_length]\<rparr>))"

fun decode_loop :: "bool \<Rightarrow> rat \<Rightarrow> int melody \<Rightarrow> int list list \<Rightarrow> error + int melody" where
  "decode_loop pauses note_length melody [] = Inr melody"
| "decode_loop pauses note_length melody (note_bits # rest) =
     (case note_step pauses note_length melody note_bits of
        Inl e \<Rightarrow> Inl e
      | Inr melody' \<Rightarrow> decode_loop pauses note_length melody' rest)"

text \<open>Line 42: the slices \<^verbatim>\<open>genome[i * 4 : i * 4 + 4]\<close> for i in
  \<^verbatim>\<open>range(num_bars * num_notes)\<close>. A slice past the end of the genome is short or
  empty, and the range of a negative number is empty.\<close>

definition note_slices :: "Genome \<Rightarrow> int \<Rightarrow> int \<Rightarrow> int list list" where
  "note_slices genome num_bars num_notes =
     map (\<lambda>i. take BITS_PER_NOTE (drop (i * BITS_PER_NOTE) genome))
         [0..<nat (num_bars * num_notes)]"

definition empty_melody :: "int melody" where
  "empty_melody = \<lparr>notes_m = [], velocity = [], beat = []\<rparr>"

text \<open>Lines 42 to 71: the melody as the loop leaves it, before the layers are built.
  \<^verbatim>\<open>4 / float(num_notes)\<close> raises OverflowError when num_notes is too large for a
  float and ZeroDivisionError when it is 0; the quotient is rounded. (A quotient or a sum
  of beat lengths is never too large or too small for a double: the divisor is at least
  1 and at most the largest double, and a sum of lengths of at most 4 stops growing long
  before 2^1024.)\<close>

definition stored_melody :: "Genome \<Rightarrow> int \<Rightarrow> int \<Rightarrow> bool \<Rightarrow> error + int melody" where
  "stored_melody genome num_bars num_notes pauses =
     (let note_list = note_slices genome num_bars num_notes
      in case py_float num_notes of
           Inl e \<Rightarrow> Inl e
         | Inr x \<Rightarrow>
             if x = 0 then Inl ZeroDivisionError
             else let note_length = fl (4 / x)
                  in decode_loop pauses note_length empty_melody note_list)"

text \<open>Line 75: one layer, \<^verbatim>\<open>[scl[(note + step * 2) % len(scl)] for note in ...]\<close>.
  The modulo raises ZeroDivisionError on an empty scale table.\<close>

fun step_layer :: "'p list \<Rightarrow> int \<Rightarrow> int list \<Rightarrow> error + 'p list" where
  "step_layer scl step [] = Inr []"
| "step_layer scl step (n # rest) =
     (if length scl = 0 then Inl ZeroDivisionError
      else case step_layer scl step rest of
             Inl e \<Rightarrow> Inl e
           | Inr ps \<Rightarrow> Inr (scl ! nat ((n + step * 2) mod int (length scl)) # ps))"

text \<open>Lines 73 to 75: the loop over \<^verbatim>\<open>range(num_steps)\<close>.\<close>

fun build_steps :: "'p list \<Rightarrow> int list \<Rightarrow> nat list \<Rightarrow> error + 'p list list" where
  "build_steps scl ns [] = Inr []"
| "build_steps scl ns (step # later) =
     (case step_layer scl (int step) ns of
        Inl e \<Rightarrow> Inl e
      | Inr layer \<Rightarrow>
          (case build_steps scl ns later of
             Inl e \<Rightarrow> Inl e
           | Inr layers \<Rightarrow> Inr (layer # layers)))"

text \<open>The decoder. \<open>EventScale\<close> is pyo's scale table (an external library): it is a
  parameter, read as the ordered sequence of the table's pitches.\<close>

definition genome_to_melody ::
  "(string \<Rightarrow> string \<Rightarrow> int \<Rightarrow> 'p list) \<Rightarrow> Genome \<Rightarrow> int \<Rightarrow> int \<Rightarrow> int \<Rightarrow> bool \<Rightarrow>
     string \<Rightarrow> string \<Rightarrow> int \<Rightarrow> error + 'p list melody" where
  "genome_to_melody EventScale genome num_bars num_notes num_steps pauses key scale root' =
     (case stored_melody genome num_bars num_notes pauses of
        Inl e \<Rightarrow> Inl e
      | Inr melody \<Rightarrow>
          (let scl = EventScale key scale root'
           in case build_steps scl (notes_m melody) [0..<nat num_steps] of
                Inl e \<Rightarrow> Inl e
              | Inr steps \<Rightarrow>
                  Inr \<lparr>notes_m = steps, velocity = velocity melody, beat = beat melody\<rparr>))"

text \<open>Lines 142 and 143 of save_genome_to_midi: the shape check on the decoded melody.
  \<^verbatim>\<open>melody["notes"][0]\<close> raises IndexError when there is no layer.\<close>

definition save_shape_check :: "'p list melody \<Rightarrow> error + unit" where
  "save_shape_check melody =
     (case notes_m melody of
        [] \<Rightarrow> Inl IndexError
      | layer # _ \<Rightarrow>
          if length layer \<noteq> length (beat melody) \<or> length layer \<noteq> length (velocity melody)
          then Inl ValueError else Inr ())"

text \<open>Modelled from the spec: pyo's EventScale is not part of the sources; the spec says
  only that a scale table is an ordered sequence of absolute pitch values. This sample
  table (C major over two octaves, as MIDI numbers) stands for it at concrete inputs.\<close>

definition sample_scale :: "string \<Rightarrow> string \<Rightarrow> int \<Rightarrow> int list" where
  "sample_scale key scale root' = [48, 50, 52, 53, 55, 57, 59, 60, 62, 64, 65, 67, 69, 71, 72]"

text \<open>The proof invariant of the loop: the three lists of the melody have one length.\<close>

definition shape_ok :: "int melody \<Rightarrow> bool" where
  "shape_ok m \<longleftrightarrow>
     length (notes_m m) = length (velocity m) \<and> length (velocity m) = length (beat m)"

text \<open>A genome cut or filled with zero bits to n bits: what the decoder reads of a genome
  of any length when n is num_bars * num_notes * BITS_PER_NOTE.\<close>

definition zero_padded :: "nat \<Rightarrow> Genome \<Rightarrow> Genome" where
  "zero_padded n genome = take n (genome @ replicate n 0)"

text \<open>A genome of bits: every entry is 0 or 1, as generate_genome builds it.\<close>

definition is_bits :: "int list \<Rightarrow> bool" where
  "is_bits bits \<longleftrightarrow> set bits \<subseteq> {0, 1}"


subsection \<open>The generation loop of main\<close>

text \<open>The three functions that main imports from Backbone are not part of the sources and
  draw random numbers: they are parameters. The first argument of each is the number of
  the call, standing for the random draws of that call; each may raise.\<close>

record backbone =
  selection_pair :: "nat \<Rightarrow> Genome list \<Rightarrow> (Genome \<Rightarrow> int) \<Rightarrow> error + Genome \<times> Genome"
  single_point_crossover :: "nat \<Rightarrow> Genome \<Rightarrow> Genome \<Rightarrow> error + Genome \<times> Genome"
  mutation :: "nat \<Rightarrow> Genome \<Rightarrow> int \<Rightarrow> rat \<Rightarrow> error + Genome"

text \<open>Lines 230 to 234: the first rating stored for the genome, 0 when there is none.\<close>

fun fitness_lookup :: "(Genome \<times> int) list \<Rightarrow> Genome \<Rightarrow> int" where
  "fitness_lookup [] genome = 0"
| "fitness_lookup (e # es) genome = (if fst e = genome then snd e else fitness_lookup es genome)"

text \<open>Lines 236 to 242: the body of the loop over j.\<close>

definition breed ::
  "backbone \<Rightarrow> Genome list \<Rightarrow> (Genome \<times> int) list \<Rightarrow> int \<Rightarrow> rat \<Rightarrow> nat \<Rightarrow> Genome list
     \<Rightarrow> error + Genome list" where
  "breed B population population_fitness num_mutations mutation_probability j next_generation =
     (case selection_pair B j population (fitness_lookup population_fitness) of
        Inl e \<Rightarrow> Inl e
      | Inr parents \<Rightarrow>
          (case single_point_crossover B j (fst parents) (snd parents) of
             Inl e \<Rightarrow> Inl e
           | Inr (offspring_a, offspring_b) \<Rightarrow>
               (case mutation B (2 * j) offspring_a num_mutations mutation_probability of
                  Inl e \<Rightarrow> Inl e
                | Inr offspring_a' \<Rightarrow>
                    (case mutation B (2 * j + 1) offspring_b num_mutations mutation_probability of
                       Inl e \<Rightarrow> Inl e
                     | Inr offspring_b' \<Rightarrow>
                         Inr (next_generation @ [offspring_a', offspring_b'])))))"

fun breed_loop ::
  "backbone \<Rightarrow> Genome list \<Rightarrow> (Genome \<times> int) list \<Rightarrow> int \<Rightarrow> rat \<Rightarrow> nat list \<Rightarrow> Genome list
     \<Rightarrow> error + Genome list" where
  "breed_loop B population population_fitness num_mutations mutation_probability [] next_generation
     = Inr next_generation"
| "breed_loop B population population_fitness num_mutations mutation_probability (j # js) next_generation
     = (case breed B population population_fitness num_mutations mutation_probability j next_generation of
          Inl e \<Rightarrow> Inl e
        | Inr next_generation' \<Rightarrow>
            breed_loop B population population_fitness num_mutations mutation_probability js
              next_generation')"

text \<open>Lines 220 to 242, from the rated population to the next generation. Python's sorted
  with \<^verbatim>\<open>reverse=True\<close> is stable, as is the insertion sort on the negated rating;
  \<^verbatim>\<open>int(len(population) / 2)\<close> is the length halved and rounded down (the float
  quotient is exact for every length below 2^53).\<close>

definition main_next_generation ::
  "backbone \<Rightarrow> (Genome \<times> int) list \<Rightarrow> int \<Rightarrow> rat \<Rightarrow> error + Genome list" where
  "main_next_generation B population_fitness num_mutations mutation_probability =
     (let sorted_population_fitness = sort_key (\<lambda>e. - snd e) population_fitness;
          population = map fst sorted_population_fitness;
          next_generation = take 2 population
      in breed_loop B population population_fitness num_mutations mutation_probability
           [0..<nat (int (length population) div 2 - 1)] next_generation)"

text \<open>Modelled from the spec: Backbone.py is missing from the sources. selectPair fails with
  EmptyPopulation on an empty population and returns two of its members; singlePointCrossover
  requires two genomes of one length, at least 2, and returns a[0:p]+b[p:] and b[0:p]+a[p:]
  for a cut p in [1, len(a)-1]; mutate returns a genome (here every trial is a no-op).
  The number of the call fixes each random draw.\<close>

definition spec_backbone :: backbone where
  "spec_backbone =
     \<lparr>selection_pair = (\<lambda>j population lookup.
          if population = [] then Inl EmptyPopulation
          else Inr (population ! (j mod length population),
                    population ! (Suc j mod length population))),
      single_point_crossover = (\<lambda>j a b.
          if length a \<noteq> length b \<or> length a < 2 then Inl CrossoverLengthMismatch
          else let p = 1 + j mod (length a - 1)
               in Inr (take p a @ drop p b, take p b @ drop p a)),
      mutation = (\<lambda>j genome num probability. Inr genome)\<rparr>"

subsection \<open>Rounding\<close>

lemma powi2_add: "(2 :: rat) powi (a + b) = 2 powi a * 2 powi b"
  by (simp add: power_int_add)

lemma powi2_less_D:
  assumes "(2 :: rat) powi a < 2 powi b"
  shows "a < b"
proof (rule ccontr)
  assume "\<not> a < b"
  then have "b \<le> a" by simp
  then have "(2 :: rat) powi b \<le> 2 powi a" by (intro power_int_increasing) simp_all
  with assms show False by simp
qed

lemma ilog2_lower:
  assumes "x \<noteq> 0"
  shows "2 powi (ilog2 x) \<le> \<bar>x\<bar>"
proof -
  obtain p q where pq: "quotient_of x = (p, q)" by (cases "quotient_of x")
  then have q: "0 < q" and x: "x = of_int p / of_int q"
    by (simp_all add: quotient_of_denom_pos quotient_of_div)
  from assms x have p: "0 < \<bar>p\<bar>" by auto
  define e0 where "e0 = bitlen \<bar>p\<bar> - bitlen q"
  show ?thesis
  proof (cases "2 powi e0 \<le> \<bar>x\<bar>")
    case True
    then show ?thesis by (simp add: ilog2_def pq e0_def)
  next
    case False
    then have e: "ilog2 x = e0 - 1" by (simp add: ilog2_def pq e0_def)
    from bitlen_bounds [OF p] have "2 ^ nat (bitlen \<bar>p\<bar> - 1) \<le> \<bar>p\<bar>" by simp
    then have "(of_int (2 ^ nat (bitlen \<bar>p\<bar> - 1)) :: rat) \<le> of_int \<bar>p\<bar>"
      by (simp only: of_int_le_iff)
    moreover have "1 \<le> bitlen \<bar>p\<bar>"
      using p bitlen_eq_zero_iff [of "\<bar>p\<bar>"] bitlen_nonneg [of "\<bar>p\<bar>"] by linarith
    ultimately have lp: "(2 :: rat) powi (bitlen \<bar>p\<bar> - 1) \<le> of_int \<bar>p\<bar>"
      by (simp add: power_int_nonneg_exp)
    from bitlen_bounds [OF q] have "q < 2 ^ nat (bitlen q)" by simp
    then have "(of_int q :: rat) < of_int (2 ^ nat (bitlen q))"
      by (simp only: of_int_less_iff)
    then have uq: "(of_int q :: rat) < 2 powi (bitlen q)"
      by (simp add: power_int_def bitlen_nonneg)
    have "(2 :: rat) powi (e0 - 1) = 2 powi (bitlen \<bar>p\<bar> - 1) / 2 powi (bitlen q)"
      by (simp add: e0_def power_int_diff [symmetric] algebra_simps)
    also have "\<dots> \<le> of_int \<bar>p\<bar> / 2 powi (bitlen q)"
      using lp by (simp add: divide_right_mono)
    also have "\<dots> \<le> of_int \<bar>p\<bar> / of_int q"
      using uq q p by (intro divide_left_mono) (simp_all add: less_imp_le)
    also have "\<dots> = \<bar>x\<bar>" using q by (simp add: x)
    finally show ?thesis by (simp add: e)
  qed
qed

lemma ilog2_upper:
  assumes "x \<noteq> 0"
  shows "\<bar>x\<bar> < 2 powi (ilog2 x + 1)"
proof -
  obtain p q where pq: "quotient_of x = (p, q)" by (cases "quotient_of x")
  then have q: "0 < q" and x: "x = of_int p / of_int q"
    by (simp_all add: quotient_of_denom_pos quotient_of_div)
  from assms x have p: "0 < \<bar>p\<bar>" by auto
  define e0 where "e0 = bitlen \<bar>p\<bar> - bitlen q"
  show ?thesis
  proof (cases "2 powi e0 \<le> \<bar>x\<bar>")
    case False
    then show ?thesis by (simp add: ilog2_def pq e0_def)
  next
    case True
    then have e: "ilog2 x = e0" by (simp add: ilog2_def pq e0_def)
    from bitlen_bounds [OF p] have "\<bar>p\<bar> < 2 ^ nat (bitlen \<bar>p\<bar>)" by simp
    then have "(of_int \<bar>p\<bar> :: rat) < of_int (2 ^ nat (bitlen \<bar>p\<bar>))"
      by (simp only: of_int_less_iff)
    then have up: "(of_int \<bar>p\<bar> :: rat) < 2 powi (bitlen \<bar>p\<bar>)"
      by (simp add: power_int_def bitlen_nonneg)
    from bitlen_bounds [OF q] have "2 ^ nat (bitlen q - 1) \<le> q" by simp
    then have "(of_int (2 ^ nat (bitlen q - 1)) :: rat) \<le> of_int q"
      by (simp only: of_int_le_iff)
    moreover have "1 \<le> bitlen q"
      using q bitlen_eq_zero_iff [of q] bitlen_nonneg [of q] by linarith
    ultimately have lq: "(2 :: rat) powi (bitlen q - 1) \<le> of_int q"
      by (simp add: power_int_nonneg_exp)
    have "\<bar>x\<bar> = of_int \<bar>p\<bar> / of_int q" using q by (simp add: x)
    also have "\<dots> < 2 powi (bitlen \<bar>p\<bar>) / of_int q"
      using up q by (simp add: divide_strict_right_mono)
    also have "\<dots> \<le> 2 powi (bitlen \<bar>p\<bar>) / 2 powi (bitlen q - 1)"
      using lq q by (intro divide_left_mono) simp_all
    also have "\<dots> = (2 :: rat) powi (e0 + 1)"
      by (simp add: e0_def power_int_diff [symmetric] algebra_simps)
    finally show ?thesis by (simp add: e)
  qed
qed

lemma ilog2_unique:
  assumes "2 powi e \<le> \<bar>x\<bar>" and "\<bar>x\<bar> < 2 powi (e + 1)"
  shows "ilog2 x = e"
proof -
  have "(0 :: rat) < 2 powi e" by simp
  with assms(1) have "0 < \<bar>x\<bar>" by linarith
  then have x0: "x \<noteq> 0" by simp
  have "(2 :: rat) powi (ilog2 x) < 2 powi (e + 1)"
    using ilog2_lower [OF x0] assms(2) by simp
  then have 1: "ilog2 x < e + 1" by (rule powi2_less_D)
  have "(2 :: rat) powi e < 2 powi (ilog2 x + 1)"
    using ilog2_upper [OF x0] assms(1) by simp
  then have 2: "e < ilog2 x + 1" by (rule powi2_less_D)
  from 1 2 show ?thesis by simp
qed

lemma fl_round:
  assumes "2 powi e \<le> \<bar>x\<bar>" and "\<bar>x\<bar> < 2 powi (e + 1)"
  shows "fl x = of_int (round_half_even (x / 2 powi (e - 52))) * 2 powi (e - 52)"
proof -
  have "(0 :: rat) < 2 powi e" by simp
  with assms(1) have "0 < \<bar>x\<bar>" by linarith
  then have x0: "x \<noteq> 0" by simp
  then show ?thesis by (simp add: fl_def Let_def ilog2_unique [OF assms])
qed

lemma floor_rat_numeral: "\<lfloor>numeral a / numeral b :: rat\<rfloor> = numeral a div numeral b"
  by (metis floor_divide_of_int_eq of_int_numeral)

lemmas round_eval = round_half_even_def Let_def floor_rat_numeral



lemma fl_exact:
  assumes "\<bar>k\<bar> < 2 ^ 53"
  shows "fl (of_int k * 2 powi e) = of_int k * 2 powi e"
proof (cases "k = 0")
  case True
  then show ?thesis by (simp add: fl_def)
next
  case False
  define x :: rat where "x = of_int k * 2 powi e"
  from False have x0: "x \<noteq> 0" by (simp add: x_def)
  have "2 powi (ilog2 x) \<le> \<bar>x\<bar>" using x0 by (rule ilog2_lower)
  also have "\<bar>x\<bar> = of_int \<bar>k\<bar> * 2 powi e" by (simp add: x_def abs_mult)
  also have "\<dots> < 2 ^ 53 * 2 powi e"
  proof -
    from assms have "(of_int \<bar>k\<bar> :: rat) < of_int (2 ^ 53)" by (simp only: of_int_less_iff)
    then show ?thesis by (simp add: mult_strict_right_mono)
  qed
  also have "\<dots> = (2 :: rat) powi (53 + e)"
    by (simp add: power_int_add)
  finally have "ilog2 x < 53 + e" by (rule powi2_less_D)
  then have d: "0 \<le> e - (ilog2 x - 52)" by simp
  define n where "n = nat (e - (ilog2 x - 52))"
  have "x / 2 powi (ilog2 x - 52) = of_int k * 2 powi (e - (ilog2 x - 52))"
    by (simp add: x_def power_int_diff)
  also have "\<dots> = of_int (k * 2 ^ n)"
    using d by (simp add: n_def power_int_def)
  finally have q: "x / 2 powi (ilog2 x - 52) = of_int (k * 2 ^ n)" .
  have "round_half_even (of_int (k * 2 ^ n)) = k * 2 ^ n"
    by (simp add: round_half_even_def del: of_int_mult of_int_power)
  then have "fl x = of_int (k * 2 ^ n) * 2 powi (ilog2 x - 52)"
    using x0 by (simp add: fl_def q Let_def del: of_int_mult of_int_power)
  also have "\<dots> = x / 2 powi (ilog2 x - 52) * 2 powi (ilog2 x - 52)"
    by (simp only: q)
  also have "\<dots> = x" by simp
  finally show ?thesis by (simp add: x_def)
qed

lemma fl_of_int: "\<bar>k\<bar> < 2 ^ 53 \<Longrightarrow> fl (of_int k) = of_int k"
  using fl_exact [of k 0] by simp

lemma small_below_max: "\<bar>k\<bar> < 2 ^ 53 \<Longrightarrow> \<bar>of_int k :: rat\<bar> < 2 ^ 1024"
proof -
  assume "\<bar>k\<bar> < 2 ^ 53"
  then have "(of_int \<bar>k\<bar> :: rat) < of_int (2 ^ 53)" by (simp only: of_int_less_iff)
  also have "\<dots> \<le> 2 ^ 1024" by (simp add: power_increasing del: power_numeral)
  finally show ?thesis by simp
qed

lemma py_float_small: "\<bar>n\<bar> < 2 ^ 53 \<Longrightarrow> py_float n = Inr (of_int n)"
  using small_below_max [of n] by (simp add: py_float_def fl_of_int Let_def not_le [symmetric])

lemma to_double_exact:
  assumes "\<bar>k\<bar> < 2 ^ 53" and "\<bar>of_int k * 2 powi e :: rat\<bar> < 2 ^ 1024"
  shows "to_double (of_int k * 2 powi e) = Finite (of_int k * 2 powi e)"
proof -
  from assms(2) have "\<not> 2 ^ 1024 \<le> (of_int k * 2 powi e :: rat)"
    and "\<not> (of_int k * 2 powi e :: rat) \<le> - (2 ^ 1024)"
    by linarith+
  then show ?thesis by (simp add: to_double_def Let_def fl_exact [OF assms(1)])
qed

lemma to_double_of_int: "\<bar>k\<bar> < 2 ^ 53 \<Longrightarrow> to_double (of_int k) = Finite (of_int k)"
  using to_double_exact [of k 0] small_below_max [of k] by simp

lemma bit_term_bit:
  assumes "b = 0 \<or> b = 1" and "index < 1024"
  shows "bit_term index b = Inr (Finite (of_int (b * 2 ^ index)))"
proof -
  from assms(1) have k: "\<bar>b\<bar> < 2 ^ 53" by auto
  have "(2 :: rat) ^ index < 2 ^ 1024"
    using assms(2) by (simp add: power_strict_increasing del: power_numeral)
  with assms(1) have "\<bar>of_int b * 2 powi (int index) :: rat\<bar> < 2 ^ 1024"
    by (auto simp: abs_mult)
  from to_double_exact [OF k this] assms(2) show ?thesis
    by (simp add: bit_term_def math_pow2_def py_float_small [OF k])
qed

lemma round_half_even_le: "q < of_int m + 1 / 2 \<Longrightarrow> round_half_even q \<le> m"
proof -
  assume a: "q < of_int m + 1 / 2"
  have f: "of_int \<lfloor>q\<rfloor> \<le> q" "q < of_int \<lfloor>q\<rfloor> + 1" by linarith+
  show ?thesis
  proof (cases "q - of_int \<lfloor>q\<rfloor> < 1 / 2")
    case True
    from f(1) a have "of_int \<lfloor>q\<rfloor> < (of_int m :: rat) + 1" by linarith
    then have "(of_int \<lfloor>q\<rfloor> :: rat) < of_int (m + 1)" by simp
    then have "\<lfloor>q\<rfloor> < m + 1" by (simp only: of_int_less_iff)
    with True show ?thesis by (simp add: round_half_even_def Let_def)
  next
    case False
    with a have "of_int \<lfloor>q\<rfloor> < (of_int m :: rat)" by linarith
    then have "\<lfloor>q\<rfloor> < m" by (simp only: of_int_less_iff)
    then show ?thesis by (simp add: round_half_even_def Let_def)
  qed
qed

lemma round_half_even_ge: "of_int m - 1 / 2 < q \<Longrightarrow> m \<le> round_half_even q"
proof -
  assume a: "of_int m - 1 / 2 < q"
  have f: "of_int \<lfloor>q\<rfloor> \<le> q" "q < of_int \<lfloor>q\<rfloor> + 1" by linarith+
  show ?thesis
  proof (cases "1 / 2 < q - of_int \<lfloor>q\<rfloor>")
    case True
    from f(2) a have "(of_int m :: rat) < of_int \<lfloor>q\<rfloor> + 2" by linarith
    then have "(of_int m :: rat) < of_int (\<lfloor>q\<rfloor> + 2)" by simp
    then have "m < \<lfloor>q\<rfloor> + 2" by (simp only: of_int_less_iff)
    with True show ?thesis by (simp add: round_half_even_def Let_def)
  next
    case False
    with a have "(of_int m :: rat) < of_int \<lfloor>q\<rfloor> + 1" by linarith
    then have "(of_int m :: rat) < of_int (\<lfloor>q\<rfloor> + 1)" by simp
    then have "m < \<lfloor>q\<rfloor> + 1" by (simp only: of_int_less_iff)
    then show ?thesis by (simp add: round_half_even_def Let_def)
  qed
qed

lemma round_half_even_abs:
  assumes "0 \<le> m" and "\<bar>q\<bar> < of_int m + 1 / 2"
  shows "\<bar>round_half_even q\<bar> \<le> m"
proof -
  from assms(2) have "q < of_int m + 1 / 2" and "of_int (- m) - 1 / 2 < q" by simp_all
  from round_half_even_le [OF this(1)] round_half_even_ge [OF this(2)] show ?thesis by simp
qed

lemma powi2_split: "(2 :: rat) powi (e + 1) = of_int (2 ^ 53) * 2 powi (e - 52)"
proof -
  have "53 + (e - 52) = e + 1" by simp
  with powi2_add [of 53 "e - 52"] have "(2 :: rat) powi (e + 1) = 2 powi 53 * 2 powi (e - 52)"
    by (simp only:)
  moreover have "(2 :: rat) powi 53 = of_int (2 ^ 53)" by simp
  ultimately show ?thesis by (simp only:)
qed

lemma powi2_split': "(2 :: rat) powi e = of_int (2 ^ 52) * 2 powi (e - 52)"
proof -
  have "52 + (e - 52) = e" by simp
  with powi2_add [of 52 "e - 52"] have "(2 :: rat) powi e = 2 powi 52 * 2 powi (e - 52)"
    by (simp only:)
  moreover have "(2 :: rat) powi 52 = of_int (2 ^ 52)" by simp
  ultimately show ?thesis by (simp only:)
qed

lemma fl_nonzero: "x \<noteq> 0 \<Longrightarrow> fl x \<noteq> 0"
proof -
  assume x0: "x \<noteq> 0"
  define u :: rat where "u = 2 powi (ilog2 x - 52)"
  define q where "q = x / u"
  have u: "0 < u" by (simp add: u_def)
  have "of_int (2 ^ 52) * u \<le> \<bar>x\<bar>"
    using ilog2_lower [OF x0] powi2_split' [of "ilog2 x"] by (simp only: u_def)
  then have "of_int (2 ^ 52) \<le> \<bar>x\<bar> / u" using u by (simp only: pos_le_divide_eq)
  moreover have "\<bar>q\<bar> = \<bar>x\<bar> / u" using u by (simp add: q_def abs_divide)
  moreover have "(1 :: rat) \<le> of_int (2 ^ 52)" by simp
  ultimately have q: "1 \<le> \<bar>q\<bar>" by linarith
  have "round_half_even q \<noteq> 0"
  proof (cases "0 \<le> q")
    case True
    with q have "of_int 1 - 1 / 2 < q" by simp
    from round_half_even_ge [OF this] show ?thesis by simp
  next
    case False
    with q have "q < of_int (- 1) + 1 / 2" by simp
    from round_half_even_le [OF this] show ?thesis by simp
  qed
  with u x0 show ?thesis by (simp add: fl_def Let_def u_def q_def)
qed

lemma fl_below_max:
  assumes "\<bar>x\<bar> < 2 ^ 1024 - 2 ^ 970"
  shows "\<bar>fl x\<bar> < 2 ^ 1024"
proof (cases "x = 0")
  case True
  then show ?thesis by (simp add: fl_def)
next
  case False
  define e where "e = ilog2 x"
  define u :: rat where "u = 2 powi (e - 52)"
  define q where "q = x / u"
  define r where "r = round_half_even q"
  have u: "0 < u" by (simp add: u_def)
  have fl: "fl x = of_int r * u"
    using False by (simp add: fl_def Let_def u_def e_def r_def q_def)
  then have afl: "\<bar>fl x\<bar> = of_int \<bar>r\<bar> * u"
    using u by (simp add: abs_mult)
  have aq: "\<bar>q\<bar> = \<bar>x\<bar> / u" using u by (simp add: q_def abs_divide)
  have up: "\<bar>x\<bar> < 2 powi (e + 1)" using False unfolding e_def by (rule ilog2_upper)
  have lo: "2 powi e \<le> \<bar>x\<bar>" using False unfolding e_def by (rule ilog2_lower)
  from lo assms have "(2 :: rat) powi e < 2 powi 1024" by simp
  then have e: "e < 1024" by (rule powi2_less_D)
  show ?thesis
  proof (cases "e = 1023")
    case True
    have "\<bar>q\<bar> = \<bar>x\<bar> / 2 ^ 971" by (simp add: aq u_def True)
    also have "\<dots> < (2 ^ 1024 - 2 ^ 970) / 2 ^ 971"
      using assms by (intro divide_strict_right_mono) simp_all
    also have "\<dots> = of_int (2 ^ 53 - 1) + 1 / 2" by simp
    finally have "\<bar>q\<bar> < of_int (2 ^ 53 - 1) + 1 / 2" .
    from round_half_even_abs [OF _ this] have "\<bar>r\<bar> \<le> 2 ^ 53 - 1"
      by (simp add: r_def)
    then have "(of_int \<bar>r\<bar> :: rat) \<le> of_int (2 ^ 53 - 1)"
      by (simp only: of_int_le_iff)
    then have "of_int \<bar>r\<bar> * u \<le> of_int (2 ^ 53 - 1) * u"
      using u by (simp only: mult_le_cancel_right_pos)
    also have "\<dots> < 2 ^ 1024" by (simp add: u_def True)
    finally show ?thesis by (simp only: afl)
  next
    case False
    with e have e': "e + 1 \<le> 1023" by simp
    have pu: "(2 :: rat) powi (e + 1) = of_int (2 ^ 53) * u"
      unfolding u_def by (rule powi2_split)
    with up have "\<bar>x\<bar> < of_int (2 ^ 53) * u" by (simp only:)
    then have "\<bar>x\<bar> / u < of_int (2 ^ 53)" using u by (simp only: pos_divide_less_eq)
    then have "\<bar>q\<bar> < of_int (2 ^ 53) + 1 / 2" using aq by linarith
    from round_half_even_abs [OF _ this] have "\<bar>r\<bar> \<le> 2 ^ 53"
      by (simp add: r_def)
    then have "(of_int \<bar>r\<bar> :: rat) \<le> of_int (2 ^ 53)"
      by (simp only: of_int_le_iff)
    then have "of_int \<bar>r\<bar> * u \<le> of_int (2 ^ 53) * u"
      using u by (simp only: mult_le_cancel_right_pos)
    also have "\<dots> = 2 powi (e + 1)"
      by (simp only: pu)
    also have "\<dots> \<le> 2 powi 1023" using e' by (intro power_int_increasing) simp_all
    also have "\<dots> < (2 :: rat) ^ 1024" by simp
    finally show ?thesis by (simp only: afl)
  qed
qed

lemma py_float_total:
  assumes "\<bar>n\<bar> < 2 ^ 1024 - 2 ^ 970"
  shows "\<exists>x. py_float n = Inr x \<and> (x = 0 \<longleftrightarrow> n = 0)"
proof -
  from assms have "(of_int \<bar>n\<bar> :: rat) < of_int (2 ^ 1024 - 2 ^ 970)"
    by (simp only: of_int_less_iff)
  then have "\<bar>of_int n :: rat\<bar> < 2 ^ 1024 - 2 ^ 970" by simp
  from fl_below_max [OF this] have "\<not> 2 ^ 1024 \<le> \<bar>fl (of_int n)\<bar>" by simp
  moreover have "fl (of_int n) = 0 \<longleftrightarrow> n = 0"
    using fl_nonzero [of "of_int n"] by (auto simp: fl_def)
  ultimately show ?thesis by (simp add: py_float_def Let_def)
qed

subsection \<open>Facts about int_from_bits\<close>

lemma is_bits_Nil: "is_bits []"
  by (simp add: is_bits_def)

lemma is_bits_Cons: "is_bits (b # bs) \<longleftrightarrow> (b = 0 \<or> b = 1) \<and> is_bits bs"
  by (auto simp: is_bits_def)

lemma bits_value_Nil: "bits_value [] = 0"
  by (simp add: bits_value_def)

lemma bits_value_Cons: "bits_value (b # bs) = b + 2 * bits_value bs"
proof -
  have "(\<Sum>i<length (b # bs). (b # bs) ! i * 2 ^ i)
      = b + (\<Sum>i<length bs. bs ! i * 2 ^ Suc i)"
    by (simp add: sum.lessThan_Suc_shift del: sum.lessThan_Suc)
  also have "\<dots> = b + 2 * (\<Sum>i<length bs. bs ! i * 2 ^ i)"
    by (simp add: sum_distrib_left mult_ac)
  finally show ?thesis by (simp add: bits_value_def)
qed

lemma bits_value_bounds:
  "is_bits bits \<Longrightarrow> 0 \<le> bits_value bits \<and> bits_value bits < 2 ^ length bits"
  by (induction bits) (auto simp: is_bits_Cons bits_value_Nil bits_value_Cons)

lemma bit_terms_bits:
  "is_bits bits \<Longrightarrow> i + length bits \<le> 1024 \<Longrightarrow>
   bit_terms (enumerate i bits)
     = Inr (map (\<lambda>(index, b). Finite (of_int (b * 2 ^ index))) (enumerate i bits))"
proof (induction bits arbitrary: i)
  case Nil
  show ?case by simp
next
  case (Cons b bs)
  from Cons.prems have b: "b = 0 \<or> b = 1" and bs: "is_bits bs" and i: "i < 1024"
    and l: "Suc i + length bs \<le> 1024"
    by (simp_all add: is_bits_Cons)
  show ?case
    by (simp add: bit_term_bit [OF b i] Cons.IH [OF bs l])
qed

lemma float_add_ints:
  assumes "\<bar>x + y\<bar> < 2 ^ 53"
  shows "float_add (Finite (of_int x)) (Finite (of_int y)) = Finite (of_int (x + y))"
  using to_double_of_int [OF assms] by simp

lemma sum_bits:
  "is_bits bits \<Longrightarrow> i + length bits \<le> 53 \<Longrightarrow> 0 \<le> s \<Longrightarrow> s < 2 ^ i \<Longrightarrow>
   foldl float_add (Finite (of_int s))
     (map (\<lambda>(index, b). Finite (of_int (b * 2 ^ index))) (enumerate i bits))
   = Finite (of_int (s + 2 ^ i * bits_value bits))"
proof (induction bits arbitrary: i s)
  case Nil
  show ?case by (simp add: bits_value_Nil)
next
  case (Cons b bs)
  from Cons.prems have b: "b = 0 \<or> b = 1" and bs: "is_bits bs"
    and l: "Suc i + length bs \<le> 53" and i: "i < 53"
    by (simp_all add: is_bits_Cons)
  define s' where "s' = s + b * 2 ^ i"
  from b Cons.prems(3,4) have s': "0 \<le> s'" "s' < 2 ^ Suc i"
    by (auto simp: s'_def)
  have "(2 :: int) ^ Suc i \<le> 2 ^ 53"
    using i by (intro power_increasing) simp_all
  with s' have "\<bar>s + b * 2 ^ i\<bar> < 2 ^ 53" by (simp add: s'_def)
  from float_add_ints [OF this]
  have "float_add (Finite (of_int s)) (Finite (of_int (b * 2 ^ i))) = Finite (of_int s')"
    by (simp add: s'_def)
  then show ?case
    using Cons.IH [OF bs l s'] by (simp add: bits_value_Cons s'_def algebra_simps)
qed

lemma int_from_bits_exact:
  assumes "is_bits bits" and "length bits \<le> 53"
  shows "int_from_bits bits = Inr (bits_value bits)"
proof -
  from assms(2) have "0 + length bits \<le> 1024" and l: "0 + length bits \<le> 53" by simp_all
  from bit_terms_bits [OF assms(1) this(1)] sum_bits [OF assms(1) l, of 0]
  show ?thesis
    by (simp add: int_from_bits_def)
qed

lemma bit_terms_error: "bit_terms xs = Inl e \<Longrightarrow> e = OverflowError"
proof (induction xs)
  case Nil
  then show ?case by simp
next
  case (Cons x xs)
  obtain index b where x: "x = (index, b)" by (cases x)
  from Cons show ?case
    by (auto simp: x bit_term_def math_pow2_def py_float_def Let_def
        split: sum.splits if_splits)
qed

lemma bit_terms_long:
  "bits \<noteq> [] \<Longrightarrow> 1024 < i + length bits \<Longrightarrow> \<exists>e. bit_terms (enumerate i bits) = Inl e"
proof (induction bits arbitrary: i)
  case Nil
  then show ?case by simp
next
  case (Cons b bs)
  show ?case
  proof (cases "i < 1024")
    case False
    then show ?thesis by (simp add: bit_term_def math_pow2_def)
  next
    case True
    with Cons.prems have "1024 < Suc i + length bs" and "bs \<noteq> []" by auto
    from Cons.IH [OF this(2) this(1)] show ?thesis
      by (auto split: sum.splits)
  qed
qed

lemma int_from_bits_long:
  assumes "1024 < length bits"
  shows "int_from_bits bits = Inl OverflowError"
proof -
  from assms have "bits \<noteq> []" and "1024 < 0 + length bits" by auto
  from bit_terms_long [OF this] obtain e where e: "bit_terms (enumerate 0 bits) = Inl e"
    by blast
  from bit_terms_error [OF e] e show ?thesis by (simp add: int_from_bits_def)
qed

subsection \<open>Zero bits\<close>

lemma bit_terms_append:
  "bit_terms (xs @ ys)
     = (case bit_terms xs of
          Inl e \<Rightarrow> Inl e
        | Inr ta \<Rightarrow> (case bit_terms ys of Inl e \<Rightarrow> Inl e | Inr tb \<Rightarrow> Inr (ta @ tb)))"
proof (induction xs)
  case Nil
  show ?case by (simp split: sum.splits)
next
  case (Cons x xs)
  obtain index b where x: "x = (index, b)" by (cases x)
  show ?case by (simp add: x Cons.IH split: sum.splits)
qed

lemma bit_terms_zeros:
  "i + k \<le> 1024 \<Longrightarrow> bit_terms (enumerate i (replicate k 0)) = Inr (replicate k (Finite 0))"
proof (induction k arbitrary: i)
  case 0
  show ?case by simp
next
  case (Suc k)
  then have i: "i < 1024" and l: "Suc i + k \<le> 1024" by simp_all
  from bit_term_bit [of 0 i] i have "bit_term i 0 = Inr (Finite 0)" by simp
  then show ?case by (simp add: Suc.IH [OF l])
qed

lemma float_add_zero: "float_add a (Finite 0) = a"
  by (cases a) simp_all

lemma foldl_float_add_zeros: "foldl float_add a (replicate k (Finite 0)) = a"
  by (induction k) (simp_all add: float_add_zero)

lemma int_from_bits_append_zeros:
  assumes "length xs + k \<le> 1024"
  shows "int_from_bits (xs @ replicate k 0) = int_from_bits xs"
proof -
  from assms have "0 + length xs + k \<le> 1024" by simp
  from bit_terms_zeros [OF this] show ?thesis
    by (simp add: int_from_bits_def enumerate_append_eq bit_terms_append
        foldl_float_add_zeros split: sum.splits)
qed

subsection \<open>Long bit sequences and binary expansions\<close>

lemma bits_value_ones: "bits_value (replicate k 1) = 2 ^ k - 1"
  by (induction k) (simp_all add: bits_value_Nil bits_value_Cons)

lemma is_bits_replicate_one: "is_bits (replicate k 1)"
  by (auto simp: is_bits_def)

lemma fl_54_ones: "fl (18014398509481983) = 18014398509481984"
  using fl_round [of 53 "18014398509481983"] by (simp add: round_eval)

lemma int_from_bits_54_ones: "int_from_bits (replicate 54 1) = Inr (2 ^ 54)"
proof -
  have "replicate (53 + 1) (1 :: int) = replicate 53 1 @ replicate 1 1"
    by (rule replicate_add)
  then have r: "replicate 54 (1 :: int) = replicate 53 1 @ [1]"
    by simp
  have t1: "bit_terms (enumerate 0 (replicate 53 1))
      = Inr (map (\<lambda>(index, b). Finite (of_int (b * 2 ^ index))) (enumerate 0 (replicate 53 1)))"
    by (rule bit_terms_bits) (simp_all add: is_bits_replicate_one)
  have t2: "bit_term 53 1 = Inr (Finite 9007199254740992)"
    using bit_term_bit [of 1 53] by simp
  have s: "foldl float_add (Finite (of_int 0))
      (map (\<lambda>(index, b). Finite (of_int (b * 2 ^ index))) (enumerate 0 (replicate 53 1)))
      = Finite (of_int (0 + 2 ^ 0 * bits_value (replicate 53 1)))"
    by (rule sum_bits) (simp_all add: is_bits_replicate_one)
  have l: "to_double 18014398509481983 = Finite 18014398509481984"
    by (simp add: to_double_def fl_54_ones)
  show ?thesis
    using s by (simp add: int_from_bits_def r enumerate_append_eq bit_terms_append t1 t2
        bits_value_ones l)
qed

lemma is_bits_binary_expansion: "is_bits (binary_expansion k n)"
  by (auto simp: is_bits_def binary_expansion_def)

lemma binary_expansion_Suc:
  "binary_expansion (Suc k) n = (n mod 2) # binary_expansion k (n div 2)"
proof -
  have "[0..<Suc k] = 0 # map Suc [0..<k]"
    by (simp add: upt_conv_Cons map_Suc_upt del: upt_Suc)
  then have "binary_expansion (Suc k) n
      = (n mod 2) # map (\<lambda>i. (n div 2 ^ Suc i) mod 2) [0..<k]"
    by (simp add: binary_expansion_def comp_def del: upt_Suc)
  moreover have "\<And>i. n div 2 ^ Suc i = (n div 2) div 2 ^ i"
    by (simp add: zdiv_zmult2_eq)
  ultimately show ?thesis by (simp add: binary_expansion_def)
qed

lemma bits_value_binary_expansion:
  "bits_value (binary_expansion k n) = n mod 2 ^ k"
proof (induction k arbitrary: n)
  case 0
  show ?case by (simp add: binary_expansion_def bits_value_Nil)
next
  case (Suc k)
  have "bits_value (binary_expansion (Suc k) n) = n mod 2 + 2 * ((n div 2) mod 2 ^ k)"
    by (simp add: binary_expansion_Suc bits_value_Cons Suc.IH)
  also have "\<dots> = n mod 2 ^ Suc k"
    by (simp add: zmod_zmult2_eq)
  finally show ?case .
qed

lemma length_binary_expansion: "length (binary_expansion k n) = k"
  by (simp add: binary_expansion_def)

subsection \<open>The shape of the melody\<close>

lemma shape_ok_empty: "shape_ok empty_melody"
  by (simp add: shape_ok_def empty_melody_def)

lemma note_step_shape:
  "note_step p nl m nb = Inr m' \<Longrightarrow> shape_ok m \<Longrightarrow> shape_ok m'"
  by (auto simp: note_step_def shape_ok_def split: if_splits sum.splits)

lemma note_step_total:
  "shape_ok m \<Longrightarrow> note_integer p nb = Inr v \<Longrightarrow> \<exists>m'. note_step p nl m nb = Inr m'"
  by (auto simp: note_step_def shape_ok_def)

lemma decode_loop_shape:
  "decode_loop p nl m ns = Inr m' \<Longrightarrow> shape_ok m \<Longrightarrow> shape_ok m'"
proof (induction ns arbitrary: m)
  case Nil
  then show ?case by simp
next
  case (Cons nb ns)
  then show ?case
    by (auto split: sum.splits dest: note_step_shape)
qed

lemma decode_loop_total:
  "shape_ok m \<Longrightarrow> list_all (\<lambda>nb. \<exists>v. note_integer p nb = Inr v) ns
   \<Longrightarrow> \<exists>m'. decode_loop p nl m ns = Inr m'"
proof (induction ns arbitrary: m)
  case Nil
  show ?case by simp
next
  case (Cons nb ns)
  from Cons.prems(2) obtain v where v: "note_integer p nb = Inr v"
    and r: "list_all (\<lambda>nb. \<exists>v. note_integer p nb = Inr v) ns" by auto
  from note_step_total [OF Cons.prems(1) v] obtain m1 where s: "note_step p nl m nb = Inr m1"
    by blast
  from s Cons.prems(1) have "shape_ok m1" by (rule note_step_shape)
  from Cons.IH [OF this r] s show ?case by simp
qed

lemma is_bits_take_drop: "is_bits g \<Longrightarrow> is_bits (take n (drop k g))"
  using set_take_subset [of n "drop k g"] set_drop_subset [of k g]
  by (auto simp: is_bits_def)

lemma note_integer_bits:
  "is_bits nb \<Longrightarrow> length nb \<le> 53 \<Longrightarrow>
   note_integer p nb = Inr (if \<not> p then bits_value nb mod 2 ^ (BITS_PER_NOTE - 1) else bits_value nb)"
  by (simp add: note_integer_def int_from_bits_exact)

lemma note_slices_decode:
  "is_bits g \<Longrightarrow> list_all (\<lambda>nb. \<exists>v. note_integer p nb = Inr v) (note_slices g nb nn)"
  by (auto simp: note_slices_def list_all_iff BITS_PER_NOTE_def
      intro!: exI note_integer_bits is_bits_take_drop)

lemma stored_melody_total:
  assumes "is_bits g" and "py_float num_notes = Inr x" and "x \<noteq> 0"
  shows "\<exists>m. stored_melody g num_bars num_notes p = Inr m"
  using decode_loop_total [OF shape_ok_empty note_slices_decode [OF assms(1)]] assms(2,3)
  by (simp add: stored_melody_def)

lemma stored_melody_shape:
  "stored_melody g num_bars num_notes p = Inr m \<Longrightarrow> shape_ok m"
  by (auto simp: stored_melody_def Let_def split: if_splits sum.splits
      intro: decode_loop_shape [OF _ shape_ok_empty])

lemma note_integer_masked:
  "note_integer False nb = Inr v \<Longrightarrow> 0 \<le> v \<and> v < 8"
  by (auto simp: note_integer_def BITS_PER_NOTE_def split: sum.splits)

lemma note_step_velocity:
  "note_step False nl m nb = Inr m' \<Longrightarrow> list_all (\<lambda>v. v = 127) (velocity m)
   \<Longrightarrow> list_all (\<lambda>v. v = 127) (velocity m')"
  by (auto simp: note_step_def BITS_PER_NOTE_def split: if_splits sum.splits
      dest!: note_integer_masked)

lemma decode_loop_velocity:
  "decode_loop False nl m ns = Inr m' \<Longrightarrow> list_all (\<lambda>v. v = 127) (velocity m)
   \<Longrightarrow> list_all (\<lambda>v. v = 127) (velocity m')"
proof (induction ns arbitrary: m)
  case Nil
  then show ?case by simp
next
  case (Cons nb ns)
  then show ?case
    by (auto split: sum.splits dest: note_step_velocity)
qed

lemma stored_melody_velocity:
  "stored_melody g nb nn False = Inr m \<Longrightarrow> list_all (\<lambda>v. v = 127) (velocity m)"
  by (auto simp: stored_melody_def Let_def empty_melody_def split: if_splits sum.splits
      dest: decode_loop_velocity)


lemma three_sounding:
  assumes "map (note_integer False) ns = [Inr 3, Inr 3, Inr 3]"
  shows "decode_loop False nl empty_melody ns
     = Inr \<lparr>notes_m = [3], velocity = [127], beat = [fl (fl (nl + nl) + nl)]\<rparr>"
proof -
  from assms obtain a b c where ns: "ns = [a, b, c]"
    and v: "note_integer False a = Inr 3" "note_integer False b = Inr 3"
      "note_integer False c = Inr 3"
    by (auto simp: map_eq_Cons_conv)
  show ?thesis
    by (simp add: ns v note_step_def empty_melody_def BITS_PER_NOTE_def)
qed

lemma note_step_cong:
  "int_from_bits nb = int_from_bits nb' \<Longrightarrow> note_step p nl m nb = note_step p nl m nb'"
  by (simp add: note_step_def note_integer_def)

lemma decode_loop_cong:
  "map int_from_bits ns = map int_from_bits ns' \<Longrightarrow> decode_loop p nl m ns = decode_loop p nl m ns'"
proof (induction ns arbitrary: ns' m)
  case Nil
  then show ?case by simp
next
  case (Cons nb ns)
  then obtain nb' rest where e: "ns' = nb' # rest" "int_from_bits nb = int_from_bits nb'"
      "map int_from_bits ns = map int_from_bits rest"
    by (cases ns') auto
  from e(2) have "note_step p nl m nb = note_step p nl m nb'" by (rule note_step_cong)
  with Cons.IH [OF e(3)] e(1) show ?case by (simp split: sum.splits)
qed

lemma padded_slice:
  assumes "i < N"
  shows "\<exists>k \<le> 4. take BITS_PER_NOTE (drop (i * BITS_PER_NOTE) (zero_padded (N * BITS_PER_NOTE) g))
         = take BITS_PER_NOTE (drop (i * BITS_PER_NOTE) g) @ replicate k 0
         \<and> length (take BITS_PER_NOTE (drop (i * BITS_PER_NOTE) g)) + k \<le> 4"
proof -
  define z :: "int list" where "z = replicate (N * 4) 0"
  from assms have "Suc i \<le> N" by simp
  then have "Suc i * 4 \<le> N * 4" by (rule mult_le_mono1)
  then have m: "min 4 (N * 4 - i * 4) = 4" by simp
  have "take 4 (drop (i * 4) (take (N * 4) (g @ z)))
      = take 4 (take (N * 4 - i * 4) (drop (i * 4) (g @ z)))"
    by (simp only: drop_take)
  also have "\<dots> = take 4 (drop (i * 4) (g @ z))"
    by (simp only: take_take m)
  also have "\<dots> = take 4 (drop (i * 4) g)
      @ take (4 - length (drop (i * 4) g)) (drop (i * 4 - length g) z)"
    by (simp only: drop_append take_append)
  also have "take (4 - length (drop (i * 4) g)) (drop (i * 4 - length g) z)
      = replicate (min (4 - length (drop (i * 4) g)) (N * 4 - (i * 4 - length g))) 0"
    by (simp add: z_def)
  finally show ?thesis
    by (auto simp: BITS_PER_NOTE_def zero_padded_def z_def
        intro!: exI [of _ "min (4 - length (drop (i * 4) g)) (N * 4 - (i * 4 - length g))"])
qed

lemma padded_slice_value:
  "i < N \<Longrightarrow>
   int_from_bits (take BITS_PER_NOTE (drop (i * BITS_PER_NOTE) (zero_padded (N * BITS_PER_NOTE) g)))
   = int_from_bits (take BITS_PER_NOTE (drop (i * BITS_PER_NOTE) g))"
  using padded_slice [of i N g] by (auto simp: int_from_bits_append_zeros)

lemma note_slices_padded:
  "map int_from_bits (note_slices (zero_padded (nat (nb * nn) * BITS_PER_NOTE) g) nb nn)
   = map int_from_bits (note_slices g nb nn)"
  by (simp add: note_slices_def padded_slice_value)

lemma stored_melody_padded:
  "stored_melody (zero_padded (nat (nb * nn) * BITS_PER_NOTE) g) nb nn p
   = stored_melody g nb nn p"
  by (simp add: stored_melody_def Let_def decode_loop_cong [OF note_slices_padded]
      split: sum.splits)

lemma note_slices_zero_bars: "note_slices g 0 nn = []"
  by (simp add: note_slices_def)

lemma fl_numeral: "numeral n < (2 :: int) ^ 53 \<Longrightarrow> fl (numeral n) = numeral n"
  using fl_of_int [of "numeral n"] by simp

lemma py_float_numeral: "numeral n < (2 :: int) ^ 53 \<Longrightarrow> py_float (numeral n) = Inr (numeral n)"
  using py_float_small [of "numeral n"] by simp

lemma py_float_zero: "py_float 0 = Inr 0"
  using py_float_small [of 0] by simp

lemma py_float_one: "py_float 1 = Inr 1"
  using py_float_small [of 1] by simp


lemmas decode_eval =
  genome_to_melody_def stored_melody_def note_slices_def BITS_PER_NOTE_def note_step_def
  note_integer_bits empty_melody_def Let_def is_bits_Cons is_bits_Nil bits_value_Cons
  bits_value_Nil fl_numeral py_float_numeral py_float_one py_float_zero sample_scale_def



lemma fl_four_thirds: "fl (4 / 3) = 6004799503160661 / 4503599627370496"
  using fl_round [of 0 "4 / 3"] by (simp add: round_eval)

lemma fl_eight_thirds:
  "fl (6004799503160661 / 2251799813685248) = 6004799503160661 / 2251799813685248"
  using fl_round [of 1 "6004799503160661 / 2251799813685248"] by (simp add: round_eval)

lemma fl_twelve_thirds: "fl (18014398509481983 / 4503599627370496) = 4"
  using fl_round [of 1 "18014398509481983 / 4503599627370496"] by (simp add: round_eval)

lemma three_thirds: "fl (fl (fl (4 / 3) + fl (4 / 3)) + fl (4 / 3)) = 4"
  by (simp add: fl_four_thirds fl_eight_thirds fl_twelve_thirds)









subsection \<open>The layers\<close>

lemma step_layer_Inr:
  "step_layer scl step ns = Inr l \<Longrightarrow>
   l = map (\<lambda>n. scl ! nat ((n + step * 2) mod int (length scl))) ns"
  by (induction ns arbitrary: l) (auto split: if_splits sum.splits)

lemma step_layer_nonempty:
  "scl \<noteq> [] \<Longrightarrow> step_layer scl step ns
     = Inr (map (\<lambda>n. scl ! nat ((n + step * 2) mod int (length scl))) ns)"
  by (induction ns) simp_all

lemma build_steps_Inr:
  "build_steps scl ns ss = Inr ls \<Longrightarrow>
   ls = map (\<lambda>step. map (\<lambda>n. scl ! nat ((n + int step * 2) mod int (length scl))) ns) ss"
  by (induction ss arbitrary: ls) (auto split: sum.splits dest: step_layer_Inr)

lemma build_steps_nonempty:
  "scl \<noteq> [] \<Longrightarrow> build_steps scl ns ss
     = Inr (map (\<lambda>step. map (\<lambda>n. scl ! nat ((n + int step * 2) mod int (length scl))) ns) ss)"
  by (induction ss) (simp_all add: step_layer_nonempty)

lemma build_steps_Nil: "build_steps scl [] ss = Inr (replicate (length ss) [])"
  by (induction ss) simp_all

lemma genome_to_melody_stored:
  "genome_to_melody E g nb nn nst p k s r = Inr m \<Longrightarrow>
   \<exists>sm. stored_melody g nb nn p = Inr sm \<and> velocity m = velocity sm \<and> beat m = beat sm
     \<and> notes_m m = map (\<lambda>step. map (\<lambda>n. E k s r ! nat ((n + int step * 2) mod int (length (E k s r))))
                        (notes_m sm)) [0..<nat nst]"
  by (auto simp: genome_to_melody_def Let_def split: sum.splits dest: build_steps_Inr)

lemma genome_to_melody_total:
  assumes "is_bits g" and "nn \<noteq> 0" and "\<bar>nn\<bar> < 2 ^ 1024 - 2 ^ 970" and "E k s r \<noteq> []"
  shows "\<exists>m. genome_to_melody E g nb nn nst p k s r = Inr m"
proof -
  from py_float_total [OF assms(3)] assms(2) obtain x where "py_float nn = Inr x" and "x \<noteq> 0"
    by auto
  from stored_melody_total [OF assms(1) this] obtain sm where a: "stored_melody g nb nn p = Inr sm"
    by blast
  show ?thesis
    by (simp add: genome_to_melody_def a build_steps_nonempty [OF assms(4)])
qed

subsection \<open>Beat lengths that are exact\<close>







subsection \<open>The size of the next generation\<close>

lemma breed_length:
  "breed B pop pf nm mp j ng = Inr ng' \<Longrightarrow> length ng' = length ng + 2"
  by (auto simp: breed_def split: sum.splits prod.splits)

lemma breed_loop_length:
  "breed_loop B pop pf nm mp js ng = Inr ng' \<Longrightarrow> length ng' = length ng + 2 * length js"
proof (induction js arbitrary: ng)
  case Nil
  then show ?case by simp
next
  case (Cons j js)
  then show ?case
    by (auto split: sum.splits dest!: breed_length)
qed

lemma main_next_generation_length:
  assumes "main_next_generation B pf nm mp = Inr ng"
  shows "length ng = min (length pf) 2 + 2 * nat (int (length pf) div 2 - 1)"
  using breed_loop_length [of B "map fst (sort_key (\<lambda>e. - snd e) pf)" pf nm mp
      "[0..<nat (int (length pf) div 2 - 1)]" "take 2 (map fst (sort_key (\<lambda>e. - snd e) pf))" ng] assms
  by (simp add: main_next_generation_def Let_def)

lemma main_next_generation_even:
  assumes "2 \<le> length pf" and "main_next_generation B pf nm mp = Inr ng"
  shows "length ng = 2 * (length pf div 2)"
proof -
  have "int (length pf) div 2 = int (length pf div 2)" by simp
  then have "nat (int (length pf) div 2 - 1) = length pf div 2 - 1" by simp
  moreover from assms(1) have "1 \<le> length pf div 2" by simp
  moreover from assms(1) have "min (length pf) 2 = 2" by simp
  ultimately show ?thesis
    using main_next_generation_length [OF assms(2)] by (simp, arith)
qed

section \<open>The claims\<close>

subsection \<open>C1\<close>

text \<open>C1: for num_bars = 0 and num_notes = 0, decoding the empty genome returns an empty melody
  and raises no error. The code does not do this: it computes \<^verbatim>\<open>4 / float(num_notes)\<close>
  before the loop and raises ZeroDivisionError, although with no note to decode the note
  length is never used. With num_bars = 0 and num_notes = 8 the same call returns the
  empty melody (one empty layer for num_steps = 1).\<close>

theorem decode_empty_zero_notes_raises:
  "genome_to_melody sample_scale [] 0 0 1 False ''C'' ''major'' 4 = Inl ZeroDivisionError
   \<and> genome_to_melody sample_scale [] 0 8 1 False ''C'' ''major'' 4
     = Inr \<lparr>notes_m = [[]], velocity = [], beat = []\<rparr>"
  by (simp add: decode_eval)

subsection \<open>C2\<close>

text \<open>C2: a sounding note is merged into the previous entry only when that entry is a
  sounding note of the same value; a sounding note of value 0 right after a rest starts a
  new entry of velocity 127. The code does not do this. A rest is stored with pitch index
  0, and the tie test of line 66 compares the pitch index alone: with pauses enabled, the
  genome of a rest (value 8) followed by the note 0 decodes to one entry of velocity 0 and
  two note lengths, the note 0 being lost in the rest. The note 1 after the same rest
  starts a new entry of velocity 127, as the claim says.\<close>

theorem rest_absorbs_zero_note:
  "stored_melody [0, 0, 0, 1, 0, 0, 0, 0] 1 2 True
     = Inr \<lparr>notes_m = [0], velocity = [0], beat = [4]\<rparr>
   \<and> genome_to_melody sample_scale [0, 0, 0, 1, 0, 0, 0, 0] 1 2 1 True ''C'' ''major'' 4
     = Inr \<lparr>notes_m = [[48]], velocity = [0], beat = [4]\<rparr>
   \<and> stored_melody [0, 0, 0, 1, 1, 0, 0, 0] 1 2 True
     = Inr \<lparr>notes_m = [0, 1], velocity = [0, 127], beat = [2, 2]\<rparr>"
  by (simp add: decode_eval upt_rec)

subsection \<open>C3\<close>

text \<open>C3 as stated fails: the decoder has no check of the genome's length and no error for
  it. The empty genome with num_bars = 1 and num_notes = 1 (4 bits expected) decodes to one
  note.\<close>

theorem decode_short_genome_succeeds:
  "genome_to_melody sample_scale [] 1 1 1 False ''C'' ''major'' 4
     = Inr \<lparr>notes_m = [[48]], velocity = [127], beat = [4]\<rparr>"
  by (simp add: decode_eval upt_rec)

text \<open>C3, amended: for a genome of any length the decoder raises no length error: it
  returns what it returns on the genome cut or filled with zero bits to
  num_bars * num_notes * BITS_PER_NOTE bits; and that is a melody whenever the genome's
  entries are bits, num_notes is not 0 and converts to a float (its absolute value is
  below 2^1024 - 2^970) and the scale table is not empty.\<close>

theorem decode_ignores_length:
  "genome_to_melody EventScale genome num_bars num_notes num_steps pauses key scale root'
     = genome_to_melody EventScale
         (zero_padded (nat (num_bars * num_notes) * BITS_PER_NOTE) genome)
         num_bars num_notes num_steps pauses key scale root'
   \<and> (is_bits genome \<and> num_notes \<noteq> 0 \<and> \<bar>num_notes\<bar> < 2 ^ 1024 - 2 ^ 970
        \<and> EventScale key scale root' \<noteq> [] \<longrightarrow>
        (\<exists>m. genome_to_melody EventScale genome num_bars num_notes num_steps pauses key scale root'
              = Inr m))"
  using genome_to_melody_total [of genome num_notes EventScale key scale root' num_bars num_steps pauses]
  by (simp add: genome_to_melody_def stored_melody_padded)

theorem decode_ignores_length_witness:
  "length [1, 1, 0, 1, 1 :: int] \<noteq> nat (1 * 2) * BITS_PER_NOTE
   \<and> is_bits [1, 1, 0, 1, 1] \<and> (2::int) \<noteq> 0 \<and> \<bar>2 :: int\<bar> < 2 ^ 1024 - 2 ^ 970
   \<and> sample_scale ''C'' ''major'' 4 \<noteq> []
   \<and> zero_padded (nat (1 * 2) * BITS_PER_NOTE) [1, 1, 0, 1, 1] = [1, 1, 0, 1, 1, 0, 0, 0]
   \<and> genome_to_melody sample_scale [1, 1, 0, 1, 1] 1 2 1 True ''C'' ''major'' 4
     = genome_to_melody sample_scale [1, 1, 0, 1, 1, 0, 0, 0] 1 2 1 True ''C'' ''major'' 4
   \<and> genome_to_melody sample_scale [1, 1, 0, 1, 1] 1 2 1 True ''C'' ''major'' 4
     = Inr \<lparr>notes_m = [[48, 50]], velocity = [0, 127], beat = [2, 2]\<rparr>"
proof -
  have z: "zero_padded (nat (1 * 2) * BITS_PER_NOTE) [1, 1, 0, 1, 1] = [1, 1, 0, 1, 1, 0, 0, 0]"
    by (simp add: zero_padded_def BITS_PER_NOTE_def eval_nat_numeral)
  have v: "genome_to_melody sample_scale [1, 1, 0, 1, 1, 0, 0, 0] 1 2 1 True ''C'' ''major'' 4
     = Inr \<lparr>notes_m = [[48, 50]], velocity = [0, 127], beat = [2, 2]\<rparr>"
    by (simp add: decode_eval upt_rec)
  have l: "length [1, 1, 0, 1, 1 :: int] \<noteq> nat (1 * 2) * BITS_PER_NOTE"
    by (simp add: BITS_PER_NOTE_def)
  have h: "is_bits [1, 1, 0, 1, 1] \<and> (2::int) \<noteq> 0 \<and> \<bar>2 :: int\<bar> < 2 ^ 1024 - 2 ^ 970
      \<and> sample_scale ''C'' ''major'' 4 \<noteq> []"
    by (simp add: is_bits_Cons is_bits_Nil sample_scale_def)
  from decode_ignores_length [of sample_scale "[1, 1, 0, 1, 1]" 1 2 1 True "''C''" "''major''" 4]
  have "genome_to_melody sample_scale [1, 1, 0, 1, 1] 1 2 1 True ''C'' ''major'' 4
     = genome_to_melody sample_scale [1, 1, 0, 1, 1, 0, 0, 0] 1 2 1 True ''C'' ''major'' 4"
    unfolding z by blast
  with z v l h show ?thesis by simp
qed

subsection \<open>C4\<close>

text \<open>C4: with num_bars = 1, num_notes = 3 and pauses disabled, a genome whose three notes
  all decode to 3 yields a melody of exactly one entry, of velocity 127, in each layer one
  pitch, and of duration 3 * (4 / 3) = 4: the three float additions of the note length
  \<^verbatim>\<open>4 / float(3)\<close> round to exactly that.\<close>

theorem three_equal_notes_tie:
  assumes "map (note_integer False) (note_slices genome 1 3) = [Inr 3, Inr 3, Inr 3]"
    and "EventScale key scale root' \<noteq> []"
  shows "genome_to_melody EventScale genome 1 3 num_steps False key scale root'
     = Inr \<lparr>notes_m = map (\<lambda>step. [EventScale key scale root'
                   ! nat ((3 + int step * 2) mod int (length (EventScale key scale root')))])
                 [0..<nat num_steps],
            velocity = [127],
            beat = [3 * (4 / 3)]\<rparr>"
proof -
  have "stored_melody genome 1 3 False
      = decode_loop False (fl (4 / 3)) empty_melody (note_slices genome 1 3)"
    by (simp add: stored_melody_def py_float_numeral)
  also have "\<dots> = Inr \<lparr>notes_m = [3], velocity = [127],
      beat = [fl (fl (fl (4 / 3) + fl (4 / 3)) + fl (4 / 3))]\<rparr>"
    using assms(1) by (rule three_sounding)
  finally have "stored_melody genome 1 3 False
      = Inr \<lparr>notes_m = [3], velocity = [127], beat = [4]\<rparr>"
    by (simp only: three_thirds)
  then show ?thesis
    by (simp add: genome_to_melody_def build_steps_nonempty [OF assms(2)])
qed

theorem three_equal_notes_tie_witness:
  "map (note_integer False) (note_slices [1, 1, 0, 0, 1, 1, 0, 1, 1, 1, 0, 0] 1 3)
     = [Inr 3, Inr 3, Inr 3]
   \<and> sample_scale ''C'' ''major'' 4 \<noteq> []
   \<and> genome_to_melody sample_scale [1, 1, 0, 0, 1, 1, 0, 1, 1, 1, 0, 0] 1 3 1 False ''C'' ''major'' 4
     = Inr \<lparr>notes_m = [[53]], velocity = [127], beat = [4]\<rparr>"
proof -
  have a: "map (note_integer False) (note_slices [1, 1, 0, 0, 1, 1, 0, 1, 1, 1, 0, 0] 1 3)
      = [Inr 3, Inr 3, Inr 3]"
    by (simp add: decode_eval upt_rec)
  have b: "sample_scale ''C'' ''major'' 4 \<noteq> []"
    by (simp add: sample_scale_def)
  from three_equal_notes_tie
      [of "[1, 1, 0, 0, 1, 1, 0, 1, 1, 1, 0, 0]" sample_scale "''C''" "''major''" 4 1, OF a b] a b
  show ?thesis
    by (simp add: sample_scale_def)
qed

subsection \<open>C5\<close>

text \<open>C5: with pauses disabled the decoded value of every note, after the mask
  (value mod 2^(BITS_PER_NOTE - 1)), is at least 0 and less than 2^(BITS_PER_NOTE - 1) = 8,
  so the rest branch is never taken, and every entry of a decoded melody has velocity 127.
  The value exists for every note of at most 53 bits.\<close>

theorem no_rest_without_pauses:
  "(\<forall>v. note_integer False note_bits = Inr v \<longrightarrow> 0 \<le> v \<and> v < 2 ^ (BITS_PER_NOTE - 1))
   \<and> (2::int) ^ (BITS_PER_NOTE - 1) = 8
   \<and> (genome_to_melody EventScale genome num_bars num_notes num_steps False key scale root' = Inr m
        \<longrightarrow> (\<forall>v \<in> set (velocity m). v = 127))
   \<and> (is_bits note_bits \<and> length note_bits \<le> 53 \<longrightarrow>
        (\<exists>v. note_integer False note_bits = Inr v))"
proof -
  have 1: "list_all (\<lambda>v. v = 127) (velocity m)"
    if "genome_to_melody EventScale genome num_bars num_notes num_steps False key scale root' = Inr m"
    using genome_to_melody_stored [OF that] stored_melody_velocity by auto
  have 2: "0 \<le> v \<and> v < 2 ^ (BITS_PER_NOTE - 1)" if "note_integer False note_bits = Inr v" for v
    using note_integer_masked [OF that] by (simp add: BITS_PER_NOTE_def)
  have 3: "\<exists>v. note_integer False note_bits = Inr v"
    if "is_bits note_bits \<and> length note_bits \<le> 53"
    using that by (simp add: note_integer_bits)
  have 4: "(2::int) ^ (BITS_PER_NOTE - 1) = 8" by (simp add: BITS_PER_NOTE_def)
  from 1 2 3 4 show ?thesis by (simp add: list_all_iff)
qed

theorem no_rest_without_pauses_witness:
  "is_bits [1, 0, 1, 1] \<and> length [1, 0, 1, 1 :: int] \<le> 53
   \<and> note_integer False [1, 0, 1, 1] = Inr 5
   \<and> (0::int) \<le> 5 \<and> (5::int) < 2 ^ (BITS_PER_NOTE - 1)
   \<and> genome_to_melody sample_scale [1, 0, 1, 1, 0, 0, 0, 1] 1 2 1 False ''C'' ''major'' 4
       = Inr \<lparr>notes_m = [[57, 48]], velocity = [127, 127], beat = [2, 2]\<rparr>
   \<and> list_all (\<lambda>v. v = 127) [127, 127 :: int]"
proof -
  have a: "note_integer False [1, 0, 1, 1] = Inr 5" by (simp add: decode_eval)
  have b: "genome_to_melody sample_scale [1, 0, 1, 1, 0, 0, 0, 1] 1 2 1 False ''C'' ''major'' 4
       = Inr \<lparr>notes_m = [[57, 48]], velocity = [127, 127], beat = [2, 2]\<rparr>"
    by (simp add: decode_eval upt_rec)
  have c: "is_bits [1, 0, 1, 1] \<and> length [1, 0, 1, 1 :: int] \<le> 53"
    by (simp add: is_bits_Cons is_bits_Nil)
  note t = no_rest_without_pauses [of "[1, 0, 1, 1]" sample_scale "[1, 0, 1, 1, 0, 0, 0, 1]" 1 2 1
      "''C''" "''major''" 4 "\<lparr>notes_m = [[57, 48]], velocity = [127, 127], beat = [2, 2]\<rparr>"]
  from t a have d: "(0::int) \<le> 5 \<and> (5::int) < 2 ^ (BITS_PER_NOTE - 1)" by blast
  from t b have "\<forall>v \<in> set [127, 127 :: int]. v = 127" by simp
  with a b c d show ?thesis by (simp add: list_all_iff)
qed

subsection \<open>C6\<close>

text \<open>C6: for num_steps at least 1, every melody the decoder returns has velocity and beat
  sequences of one length, num_steps layers, each layer of that same length, and passes
  the shape check of save_genome_to_midi (no ValueError); and the decoder does return a
  melody when the genome's entries are bits, num_notes is not 0 and converts to a float,
  and the scale table is not empty.\<close>

theorem melody_shape:
  assumes "1 \<le> num_steps"
  shows "(\<forall>m. genome_to_melody EventScale genome num_bars num_notes num_steps pauses key scale root'
             = Inr m \<longrightarrow>
           length (velocity m) = length (beat m)
           \<and> length (notes_m m) = nat num_steps
           \<and> (\<forall>k < nat num_steps. length (notes_m m ! k) = length (velocity m))
           \<and> save_shape_check m = Inr ())
         \<and> (is_bits genome \<and> num_notes \<noteq> 0 \<and> \<bar>num_notes\<bar> < 2 ^ 1024 - 2 ^ 970
             \<and> EventScale key scale root' \<noteq> [] \<longrightarrow>
             (\<exists>m. genome_to_melody EventScale genome num_bars num_notes num_steps pauses key scale root'
                  = Inr m))"
proof -
  have shape: "length (velocity m) = length (beat m)
           \<and> length (notes_m m) = nat num_steps
           \<and> (\<forall>k < nat num_steps. length (notes_m m ! k) = length (velocity m))
           \<and> save_shape_check m = Inr ()"
    if g: "genome_to_melody EventScale genome num_bars num_notes num_steps pauses key scale root' = Inr m"
    for m
  proof -
    from genome_to_melody_stored [OF g] obtain sm
      where sm: "stored_melody genome num_bars num_notes pauses = Inr sm"
        and v: "velocity m = velocity sm" and b: "beat m = beat sm"
        and n: "notes_m m = map (\<lambda>step. map (\<lambda>n. EventScale key scale root'
                   ! nat ((n + int step * 2) mod int (length (EventScale key scale root'))))
                          (notes_m sm)) [0..<nat num_steps]"
      by blast
    from stored_melody_shape [OF sm] have s: "length (notes_m sm) = length (velocity sm)"
        "length (velocity sm) = length (beat sm)"
      by (simp_all add: shape_ok_def)
    have 1: "length (velocity m) = length (beat m)" using v b s by simp
    have 2: "length (notes_m m) = nat num_steps" using n by simp
    have 3: "\<forall>k < nat num_steps. length (notes_m m ! k) = length (velocity m)"
      using n v s by simp
    from assms have "[0..<nat num_steps] = 0 # [1..<nat num_steps]"
      by (simp add: upt_conv_Cons)
    with n v b s have 4: "save_shape_check m = Inr ()"
      by (simp add: save_shape_check_def)
    from 1 2 3 4 show ?thesis by blast
  qed
  have total: "\<exists>m. genome_to_melody EventScale genome num_bars num_notes num_steps pauses key scale root' = Inr m"
    if "is_bits genome \<and> num_notes \<noteq> 0 \<and> \<bar>num_notes\<bar> < 2 ^ 1024 - 2 ^ 970
        \<and> EventScale key scale root' \<noteq> []"
    using that genome_to_melody_total [of genome num_notes EventScale key scale root'] by blast
  from shape total show ?thesis by blast
qed

theorem melody_shape_witness:
  "(1::int) \<le> 2 \<and> is_bits [1, 0, 1, 1, 0, 0, 0, 1] \<and> (2::int) \<noteq> 0
   \<and> \<bar>2 :: int\<bar> < 2 ^ 1024 - 2 ^ 970 \<and> sample_scale ''C'' ''major'' 4 \<noteq> []
   \<and> genome_to_melody sample_scale [1, 0, 1, 1, 0, 0, 0, 1] 1 2 2 True ''C'' ''major'' 4
       = Inr \<lparr>notes_m = [[48, 48], [52, 52]], velocity = [0, 0], beat = [2, 2]\<rparr>
   \<and> save_shape_check \<lparr>notes_m = [[48, 48], [52, 52 :: int]], velocity = [0, 0], beat = [2, 2]\<rparr>
       = Inr ()"
proof -
  have a: "(1::int) \<le> 2" by simp
  have b: "genome_to_melody sample_scale [1, 0, 1, 1, 0, 0, 0, 1] 1 2 2 True ''C'' ''major'' 4
       = Inr \<lparr>notes_m = [[48, 48], [52, 52]], velocity = [0, 0], beat = [2, 2]\<rparr>"
    by (simp add: decode_eval upt_rec)
  have h: "is_bits [1, 0, 1, 1, 0, 0, 0, 1] \<and> (2::int) \<noteq> 0
      \<and> \<bar>2 :: int\<bar> < 2 ^ 1024 - 2 ^ 970 \<and> sample_scale ''C'' ''major'' 4 \<noteq> []"
    by (simp add: is_bits_Cons is_bits_Nil sample_scale_def)
  from melody_shape [OF a, of sample_scale "[1, 0, 1, 1, 0, 0, 0, 1]" 1 2 True "''C''" "''major''" 4] b
  have "save_shape_check \<lparr>notes_m = [[48, 48], [52, 52 :: int]], velocity = [0, 0], beat = [2, 2]\<rparr>
       = Inr ()" by blast
  with a b h show ?thesis by simp
qed

subsection \<open>C7\<close>

text \<open>C7: in a decoded melody, layer step (from 0 below num_steps) holds, for every stored
  pitch index, the scale table's entry at (index + step * 2) mod the table's length, and
  the velocity and beat sequences are those the loop stored, one pair for all the layers.\<close>

theorem layers_from_scale_table:
  assumes "genome_to_melody EventScale genome num_bars num_notes num_steps pauses key scale root' = Inr m"
  shows "\<exists>sm. stored_melody genome num_bars num_notes pauses = Inr sm
           \<and> velocity m = velocity sm \<and> beat m = beat sm
           \<and> length (notes_m m) = nat num_steps
           \<and> (\<forall>step < nat num_steps.
                 length (notes_m m ! step) = length (notes_m sm)
                 \<and> (\<forall>i < length (notes_m sm).
                       notes_m m ! step ! i
                         = EventScale key scale root'
                             ! nat ((notes_m sm ! i + int step * 2)
                                    mod int (length (EventScale key scale root')))))"
proof -
  from genome_to_melody_stored [OF assms] obtain sm
    where sm: "stored_melody genome num_bars num_notes pauses = Inr sm"
      and v: "velocity m = velocity sm" and b: "beat m = beat sm"
      and n: "notes_m m = map (\<lambda>step. map (\<lambda>n. EventScale key scale root'
                 ! nat ((n + int step * 2) mod int (length (EventScale key scale root'))))
                        (notes_m sm)) [0..<nat num_steps]"
    by blast
  from n have "length (notes_m m) = nat num_steps" by simp
  moreover from n have "\<forall>step < nat num_steps.
                 length (notes_m m ! step) = length (notes_m sm)
                 \<and> (\<forall>i < length (notes_m sm).
                       notes_m m ! step ! i
                         = EventScale key scale root'
                             ! nat ((notes_m sm ! i + int step * 2)
                                    mod int (length (EventScale key scale root'))))"
    by simp
  ultimately show ?thesis using sm v b by blast
qed

theorem layers_from_scale_table_witness:
  "genome_to_melody sample_scale [1, 0, 1, 0, 0, 1, 1, 0] 1 2 2 True ''C'' ''major'' 4
       = Inr \<lparr>notes_m = [[57, 59], [60, 62]], velocity = [127, 127], beat = [2, 2]\<rparr>
   \<and> stored_melody [1, 0, 1, 0, 0, 1, 1, 0] 1 2 True
       = Inr \<lparr>notes_m = [5, 6], velocity = [127, 127], beat = [2, 2]\<rparr>
   \<and> (\<exists>sm. stored_melody [1, 0, 1, 0, 0, 1, 1, 0] 1 2 True = Inr sm
         \<and> [[57, 59], [60, 62]] ! 1 ! 0
             = sample_scale ''C'' ''major'' 4
                 ! nat ((notes_m sm ! 0 + int 1 * 2) mod int (length (sample_scale ''C'' ''major'' 4))))"
proof -
  have a: "genome_to_melody sample_scale [1, 0, 1, 0, 0, 1, 1, 0] 1 2 2 True ''C'' ''major'' 4
       = Inr \<lparr>notes_m = [[57, 59], [60, 62]], velocity = [127, 127], beat = [2, 2]\<rparr>"
    by (simp add: decode_eval upt_rec)
  have b: "stored_melody [1, 0, 1, 0, 0, 1, 1, 0] 1 2 True
       = Inr \<lparr>notes_m = [5, 6], velocity = [127, 127], beat = [2, 2]\<rparr>"
    by (simp add: decode_eval upt_rec)
  from layers_from_scale_table [OF a] b
  have "[[57, 59], [60, 62]] ! 1 ! 0
             = sample_scale ''C'' ''major'' 4
                 ! nat ((5 + int 1 * 2) mod int (length (sample_scale ''C'' ''major'' 4)))"
    by (simp add: sample_scale_def)
  with a b show ?thesis by simp
qed

subsection \<open>C8\<close>

text \<open>C8 as stated fails: from a rated population of 3 genomes the generation loop builds a
  next generation of 2 genomes (the two survivors; the loop over j runs
  int(3 / 2) - 1 = 0 times).\<close>

theorem odd_population_shrinks:
  "main_next_generation spec_backbone
     [([0, 0, 0, 0], 1), ([1, 0, 0, 0], 3), ([0, 1, 0, 0], 2)] 2 (1 / 2)
   = Inr [[1, 0, 0, 0], [0, 1, 0, 0]]"
  by code_simp

text \<open>C8, amended: for a rated population of n genomes, n at least 2, a pass of the
  generation loop that returns builds a next generation of 2 * (n div 2) genomes: n when n
  is even, n - 1 when n is odd.\<close>

theorem next_generation_size:
  assumes "2 \<le> length population_fitness"
    and "main_next_generation B population_fitness num_mutations mutation_probability
           = Inr next_generation"
  shows "length next_generation = 2 * (length population_fitness div 2)
     \<and> (even (length population_fitness) \<longrightarrow>
           length next_generation = length population_fitness)
     \<and> (odd (length population_fitness) \<longrightarrow>
           length next_generation + 1 = length population_fitness)"
proof -
  have "length next_generation = 2 * (length population_fitness div 2)"
    using assms by (rule main_next_generation_even)
  then show ?thesis
    by (auto elim: oddE)
qed

theorem next_generation_size_witness:
  "2 \<le> length [([0, 0, 0, 0], 1), ([1, 0, 0, 0], 3), ([0, 1, 0, 0], 2), ([1, 1, 1, 1], 3 :: int)]
   \<and> main_next_generation spec_backbone
        [([0, 0, 0, 0], 1), ([1, 0, 0, 0], 3), ([0, 1, 0, 0], 2), ([1, 1, 1, 1], 3)] 2 (1 / 2)
      = Inr [[1, 0, 0, 0], [1, 1, 1, 1], [1, 1, 1, 1], [1, 0, 0, 0]]
   \<and> length [[1, 0, 0, 0], [1, 1, 1, 1], [1, 1, 1, 1], [1, 0, 0, 0 :: int]] = 4
   \<and> 2 \<le> length [([1, 1, 0, 0], 0), ([0, 0, 1, 1], 5), ([0, 1, 0, 1], 5 :: int)]
   \<and> main_next_generation spec_backbone
        [([1, 1, 0, 0], 0), ([0, 0, 1, 1], 5), ([0, 1, 0, 1], 5)] 1 1
      = Inr [[0, 0, 1, 1], [0, 1, 0, 1]]
   \<and> length [[0, 0, 1, 1], [0, 1, 0, 1 :: int]] + 1 = 3"
proof -
  have a: "2 \<le> length [([0, 0, 0, 0], 1), ([1, 0, 0, 0], 3), ([0, 1, 0, 0], 2), ([1, 1, 1, 1], 3 :: int)]"
    by simp
  have b: "main_next_generation spec_backbone
        [([0, 0, 0, 0], 1), ([1, 0, 0, 0], 3), ([0, 1, 0, 0], 2), ([1, 1, 1, 1], 3)] 2 (1 / 2)
      = Inr [[1, 0, 0, 0], [1, 1, 1, 1], [1, 1, 1, 1], [1, 0, 0, 0]]"
    by code_simp
  have c: "2 \<le> length [([1, 1, 0, 0], 0), ([0, 0, 1, 1], 5), ([0, 1, 0, 1], 5 :: int)]"
    by simp
  have d: "main_next_generation spec_backbone
        [([1, 1, 0, 0], 0), ([0, 0, 1, 1], 5), ([0, 1, 0, 1], 5)] 1 1
      = Inr [[0, 0, 1, 1], [0, 1, 0, 1]]"
    by code_simp
  from next_generation_size [OF a b] next_generation_size [OF c d] a b c d
  show ?thesis by simp
qed

subsection \<open>C9\<close>

text \<open>C9 as stated fails: int_from_bits sums floats, so a sequence of 54 ones, whose value is
  2^54 - 1, gives 2^54.\<close>

theorem fifty_four_ones_rounded:
  "int_from_bits (replicate 54 1) = Inr (2 ^ 54) \<and> bits_value (replicate 54 1) = 2 ^ 54 - 1"
  by (simp only: int_from_bits_54_ones bits_value_ones simp_thms)

text \<open>C9, amended: on a sequence of at most 53 bits (entries 0 or 1), least-significant bit
  first, int_from_bits returns the sum of bit i times 2 to the i with no error (0 on the
  empty sequence), and on the k-bit little-endian binary expansion of an integer n with
  0 \<le> n < 2^k and k \<le> 53 it returns n. On more than 1024 entries it raises
  OverflowError.\<close>

theorem int_from_bits_value_and_roundtrip:
  "(is_bits bits \<and> length bits \<le> 53 \<longrightarrow>
      int_from_bits bits = Inr (\<Sum>i<length bits. bits ! i * 2 ^ i))
   \<and> int_from_bits [] = Inr 0
   \<and> (0 \<le> n \<and> n < 2 ^ k \<and> k \<le> 53 \<longrightarrow> int_from_bits (binary_expansion k n) = Inr n)
   \<and> (1024 < length bits \<longrightarrow> int_from_bits bits = Inl OverflowError)"
proof -
  have 1: "int_from_bits bits = Inr (\<Sum>i<length bits. bits ! i * 2 ^ i)"
    if "is_bits bits \<and> length bits \<le> 53"
    using that int_from_bits_exact [of bits] by (simp add: bits_value_def)
  have 2: "int_from_bits [] = Inr 0"
    using int_from_bits_exact [of "[]"] by (simp add: is_bits_Nil bits_value_Nil)
  have 3: "int_from_bits (binary_expansion k n) = Inr n" if "0 \<le> n \<and> n < 2 ^ k \<and> k \<le> 53"
    using that int_from_bits_exact [OF is_bits_binary_expansion, of k n]
    by (simp add: length_binary_expansion bits_value_binary_expansion)
  have 4: "int_from_bits bits = Inl OverflowError" if "1024 < length bits"
    using that by (rule int_from_bits_long)
  from 1 2 3 4 show ?thesis by blast
qed

theorem int_from_bits_value_and_roundtrip_witness:
  "is_bits [1, 0, 1, 1] \<and> length [1, 0, 1, 1 :: int] \<le> 53
   \<and> int_from_bits [1, 0, 1, 1] = Inr 13
   \<and> (0 \<le> (13::int) \<and> (13::int) < 2 ^ 4 \<and> (4::nat) \<le> 53)
   \<and> binary_expansion 4 13 = [1, 0, 1, 1] \<and> int_from_bits (binary_expansion 4 13) = Inr 13
   \<and> 1024 < length (replicate 1025 (1::int))
   \<and> int_from_bits (replicate 1025 1) = Inl OverflowError"
proof -
  have a: "is_bits [1, 0, 1, 1] \<and> length [1, 0, 1, 1 :: int] \<le> 53"
    by (simp add: is_bits_Cons is_bits_Nil)
  have e: "binary_expansion 4 13 = [1, 0, 1, 1]"
    by (simp add: binary_expansion_def upt_rec)
  have b: "(0::int) \<le> 13 \<and> (13::int) < 2 ^ 4 \<and> (4::nat) \<le> 53" by simp
  have c: "1024 < length (replicate 1025 (1::int))" by simp
  from int_from_bits_value_and_roundtrip [of "[1, 0, 1, 1]" 13 4] a b
  have 1: "int_from_bits [1, 0, 1, 1] = Inr 13"
    and 2: "int_from_bits (binary_expansion 4 13) = Inr 13"
    by (simp_all add: eval_nat_numeral)
  from int_from_bits_value_and_roundtrip [of "replicate 1025 1" 0 0] c
  have 3: "int_from_bits (replicate 1025 1) = Inl OverflowError" by blast
  from a b c e 1 2 3 show ?thesis by simp
qed

subsection \<open>C10\<close>




end
